theory Spec2Isabelle
  imports Complex_Main "HOL-Library.Log_Nat"
begin

section \<open>Python values and exceptions\<close>

text \<open>
  The exceptions the module \<^verbatim>\<open>semantic_search.py\<close> can raise are values: a function
  that may raise returns \<open>py_error + 'a\<close>, with \<open>Inl\<close> for the exception.
\<close>

datatype py_error =
  ZeroDivisionError | IndexError | OSError | UnpicklingError | TypeError | ValueError

text \<open>\<^verbatim>\<open>xs[i]\<close> for an index that comes from \<^verbatim>\<open>range(...)\<close> or \<^verbatim>\<open>enumerate(...)\<close>.\<close>

definition getitem :: "'a list \<Rightarrow> nat \<Rightarrow> py_error + 'a" where
  "getitem xs i = (if i < length xs then Inr (xs ! i) else Inl IndexError)"

text \<open>\<^verbatim>\<open>xs[i]\<close> for any integer: a negative index counts from the end.\<close>

definition py_index :: "'a list \<Rightarrow> int \<Rightarrow> py_error + 'a" where
  "py_index xs idx =
     (if 0 \<le> idx \<and> idx < int (length xs) then Inr (xs ! nat idx)
      else if idx < 0 \<and> - int (length xs) \<le> idx then Inr (xs ! nat (int (length xs) + idx))
      else Inl IndexError)"

text \<open>
  A list comprehension \<^verbatim>\<open>[f(x) for x in xs]\<close> evaluates \<open>f\<close> from left to right and
  stops at the first exception.
\<close>

fun comprehension :: "('a \<Rightarrow> py_error + 'b) \<Rightarrow> 'a list \<Rightarrow> py_error + 'b list" where
  "comprehension f [] = Inr []"
| "comprehension f (x # xs) =
     (case f x of
        Inl e \<Rightarrow> Inl e
      | Inr y \<Rightarrow> (case comprehension f xs of Inl e \<Rightarrow> Inl e | Inr ys \<Rightarrow> Inr (y # ys)))"

section \<open>Floating-point numbers\<close>

text \<open>
  Python's \<^verbatim>\<open>float\<close> is the IEEE binary64 double. A double is modelled by the rational
  number it stands for, and every operation by the exact result rounded to the nearest
  double, a tie going to the even significand. Signed zeros, infinities and NaN are not
  modelled: the quotients below are finite and at most the length of a list, far below
  the largest double.
\<close>

text \<open>Rounding a rational to the nearest integer, a tie going to the even one.\<close>

definition round_half_even :: "rat \<Rightarrow> int" where
  "round_half_even q =
     (let f = \<lfloor>q\<rfloor>; d = q - of_int f
      in if d < 1 / 2 then f else if 1 / 2 < d then f + 1 else if even f then f else f + 1)"

text \<open>
  The binary exponent of a positive rational \<open>x\<close>: the \<open>e\<close> with
  \<open>2\<^sup>e \<le> x < 2\<^sup>e\<^sup>+\<^sup>1\<close>, found from the bit lengths of numerator and denominator.
\<close>

definition binade :: "rat \<Rightarrow> int" where
  "binade x =
     (let (a, b) = quotient_of x;
          d = int (floorlog 2 (nat a)) - int (floorlog 2 (nat b))
      in if 2 powi d \<le> x then d else d - 1)"

text \<open>
  The double nearest to \<open>x\<close>: 53 significant bits, so the spacing of the doubles near
  \<open>x\<close> is \<open>2\<^sup>e\<^sup>-\<^sup>5\<^sup>2\<close>; below \<open>2\<^sup>-\<^sup>1\<^sup>0\<^sup>2\<^sup>2\<close> the spacing stays \<open>2\<^sup>-\<^sup>1\<^sup>0\<^sup>7\<^sup>4\<close>
  (subnormal numbers).
\<close>

definition fl :: "rat \<Rightarrow> rat" where
  "fl x =
     (if x = 0 then 0
      else let e = max (binade \<bar>x\<bar>) (- 1022); ulp = 2 powi (e - 52)
           in of_int (round_half_even (x / ulp)) * ulp)"

text \<open>
  The two constants of the error of one rounding: half the relative spacing, and half
  the spacing of the subnormal numbers.
\<close>

definition unit_roundoff :: rat where
  "unit_roundoff = 1 / 2 ^ 53"

definition tiny :: rat where
  "tiny = 1 / 2 ^ 1075"

text \<open>
  \<^verbatim>\<open>a / b\<close> for two integers, or for a double and an integer that has been converted to
  a double: the nearest double to the quotient, or \<^verbatim>\<open>ZeroDivisionError\<close>.
\<close>

definition py_truediv :: "rat \<Rightarrow> rat \<Rightarrow> py_error + rat" where
  "py_truediv a b = (if b = 0 then Inl ZeroDivisionError else Inr (fl (a / b)))"

text \<open>
  \<^verbatim>\<open>round(x, n)\<close> for a double \<open>x\<close>: the decimal with \<open>n\<close> digits after the point that
  is nearest to the exact value of \<open>x\<close> (a tie going to the even last digit), then the
  double nearest to that decimal.
\<close>

definition py_round :: "rat \<Rightarrow> nat \<Rightarrow> rat" where
  "py_round x n = fl (of_int (round_half_even (x * 10 ^ n)) / 10 ^ n)"

text \<open>
  \<^verbatim>\<open>sum(xs)\<close> for a list of doubles: starting from 0, the items are added from left to
  right and every partial sum is rounded to a double (CPython up to version 3.11; later
  versions add a compensation term).
\<close>

definition py_sum :: "rat list \<Rightarrow> rat" where
  "py_sum xs = foldl (\<lambda>s x. fl (s + x)) 0 xs"

section \<open>Evaluator: \<^verbatim>\<open>compute_recall_at_k\<close>\<close>

text \<open>
  \<^verbatim>\<open>round(sum([len(set(ann[i]) & set(nn_gt[i])) / k for i in range(len(ann))]) / len(ann), 3)\<close>
  The quotient of two integers is a double; the sum is a double, and \<^verbatim>\<open>len(ann)\<close> is
  converted to a double before the second division.
\<close>

definition recall_term :: "'a list list \<Rightarrow> 'a list list \<Rightarrow> int \<Rightarrow> nat \<Rightarrow> py_error + rat" where
  "recall_term nn_gt ann k i =
     (case getitem ann i of
        Inl e \<Rightarrow> Inl e
      | Inr a \<Rightarrow>
          (case getitem nn_gt i of
             Inl e \<Rightarrow> Inl e
           | Inr g \<Rightarrow> py_truediv (of_nat (card (set a \<inter> set g))) (of_int k)))"

definition compute_recall_at_k :: "'a list list \<Rightarrow> 'a list list \<Rightarrow> int \<Rightarrow> py_error + rat" where
  "compute_recall_at_k nn_gt ann k =
     (case comprehension (recall_term nn_gt ann k) [0..<length ann] of
        Inl e \<Rightarrow> Inl e
      | Inr ts \<Rightarrow>
          (case py_truediv (py_sum ts) (fl (of_nat (length ann))) of
             Inl e \<Rightarrow> Inl e
           | Inr m \<Rightarrow> Inr (py_round m 3)))"

text \<open>
  The spec's words for the same quantity: the mean over the queries of
  \<open>|approximate \<inter> ground-truth| / k\<close>, as an exact rational number.
\<close>

definition recall_at_k_spec :: "'a list list \<Rightarrow> 'a list list \<Rightarrow> int \<Rightarrow> rat" where
  "recall_at_k_spec nn_gt ann k =
     (\<Sum>i<length ann. of_nat (card (set (ann ! i) \<inter> set (nn_gt ! i))) / of_int k)
       / of_nat (length ann)"

section \<open>The world outside: files and standard output\<close>

text \<open>
  The module reads and writes files by path and prints two messages. A \<open>world\<close> holds
  the contents of the files that exist, which paths can be opened for writing and for
  reading, and what has been printed so far.
\<close>

datatype printed = Created nat nat | Csv_not_created

record world =
  file_data :: "string \<rightharpoonup> string"
  may_write :: "string \<Rightarrow> bool"
  may_read :: "string \<Rightarrow> bool"
  stdout :: "printed list"

definition print :: "printed \<Rightarrow> world \<Rightarrow> world" where
  "print msg w = w\<lparr>stdout := stdout w @ [msg]\<rparr>"

text \<open>Opening a path for writing and writing \<open>bytes\<close> replaces what the file held.\<close>

definition write_file :: "world \<Rightarrow> string \<Rightarrow> string \<Rightarrow> py_error + world" where
  "write_file w file_path bytes =
     (if may_write w file_path
      then Inr (w\<lparr>file_data := (file_data w)(file_path \<mapsto> bytes)\<rparr>)
      else Inl OSError)"

definition read_file :: "world \<Rightarrow> string \<Rightarrow> py_error + string" where
  "read_file w file_path =
     (if may_read w file_path
      then (case file_data w file_path of None \<Rightarrow> Inl OSError | Some bytes \<Rightarrow> Inr bytes)
      else Inl OSError)"

section \<open>Embedder: \<^verbatim>\<open>embedd_dataset\<close>\<close>

text \<open>The slice \<^verbatim>\<open>xs[:stop]\<close>: a negative \<open>stop\<close> counts from the end.\<close>

definition slice_to :: "'a list \<Rightarrow> int \<Rightarrow> 'a list" where
  "slice_to xs stop =
     (if stop < 0 then take (nat (int (length xs) + stop)) xs else take (nat stop) xs)"

text \<open>
  \<^verbatim>\<open>embeddings = model.encode(dataset[text_field][:rec_num])\<close>.
  The data frame is the list of its rows and a column name is a field of the row; the
  model is its \<^verbatim>\<open>encode\<close>, which the sentence-transformer library supplies.
\<close>

definition embedd_dataset ::
  "'r list \<Rightarrow> ('c list \<Rightarrow> 'v list) \<Rightarrow> ('r \<Rightarrow> 'c) \<Rightarrow> int \<Rightarrow> 'v list" where
  "embedd_dataset dataset model text_field rec_number =
     model (slice_to (map text_field dataset) rec_number)"

section \<open>Index builder and retriever\<close>

text \<open>
  \<^verbatim>\<open>index = faiss.IndexFlatL2(dim[1]); index.add(embeddings); return index\<close>.
  The constructor and \<^verbatim>\<open>add\<close> belong to the index library; \<open>dims\<close> is the shape tuple (the source calls it \<^verbatim>\<open>dim\<close>).
\<close>

definition build_faiss_flatl2_index ::
  "(nat \<Rightarrow> 'ix) \<Rightarrow> ('ix \<Rightarrow> 'v list \<Rightarrow> 'ix) \<Rightarrow> 'v list \<Rightarrow> nat list \<Rightarrow> py_error + 'ix" where
  "build_faiss_flatl2_index IndexFlatL2 add embeddings dims =
     (case getitem dims 1 of
        Inl e \<Rightarrow> Inl e
      | Inr d \<Rightarrow> Inr (add (IndexFlatL2 d) embeddings))"

text \<open>
  \<^verbatim>\<open>query_embedding = model.encode([query], convert_to_numpy=True)\<close>
  \<^verbatim>\<open>distances, indices = index.search(query_embedding, top_n)\<close>
  \<^verbatim>\<open>results = [(chunks[idx], distances[0][i]) for i, idx in enumerate(indices[0])]\<close>
  The index is its \<^verbatim>\<open>search\<close>: from a batch of query vectors and \<open>top_n\<close> to one row
  of distances and one row of indices per query.
\<close>

definition passage :: "'c list \<Rightarrow> 'd list list \<Rightarrow> nat \<times> int \<Rightarrow> py_error + 'c \<times> 'd" where
  "passage chunks distances p =
     (case p of (i, idx) \<Rightarrow>
        (case py_index chunks idx of
           Inl e \<Rightarrow> Inl e
         | Inr c \<Rightarrow>
             (case getitem distances 0 of
                Inl e \<Rightarrow> Inl e
              | Inr row \<Rightarrow> (case getitem row i of Inl e \<Rightarrow> Inl e | Inr d \<Rightarrow> Inr (c, d)))))"

definition retrieve_top_passages ::
  "'q \<Rightarrow> ('q list \<Rightarrow> 'v list) \<Rightarrow> ('v list \<Rightarrow> int \<Rightarrow> 'd list list \<times> int list list)
     \<Rightarrow> 'c list \<Rightarrow> int \<Rightarrow> py_error + ('c \<times> 'd) list" where
  "retrieve_top_passages query model index chunks top_n =
     (let query_embedding = model [query];
          (distances, indices) = index query_embedding top_n
      in case getitem indices 0 of
           Inl e \<Rightarrow> Inl e
         | Inr row \<Rightarrow> comprehension (passage chunks distances) (enumerate 0 row))"

text \<open>
  \<^verbatim>\<open>retrieve\<close>: the loop over \<open>queries\<close> stores one result list per query; every pass
  runs one search, recorded here beside the dictionary. The function has no
  \<^verbatim>\<open>return\<close>: it returns \<^verbatim>\<open>None\<close>, the value \<open>()\<close>.
\<close>

fun retrieve_loop ::
  "'q list \<Rightarrow> ('q list \<Rightarrow> 'v list) \<Rightarrow> ('v list \<Rightarrow> int \<Rightarrow> 'd list list \<times> int list list)
     \<Rightarrow> 'c list \<Rightarrow> ('q \<rightharpoonup> ('c \<times> 'd) list) \<times> 'q list
     \<Rightarrow> py_error + ('q \<rightharpoonup> ('c \<times> 'd) list) \<times> 'q list" where
  "retrieve_loop [] model index chunks st = Inr st"
| "retrieve_loop (query # queries) model index chunks (retrieval_results, searched) =
     (case retrieve_top_passages query model index chunks 5 of
        Inl e \<Rightarrow> Inl e
      | Inr r \<Rightarrow>
          retrieve_loop queries model index chunks
            (retrieval_results(query \<mapsto> r), searched @ [query]))"

definition retrieve_state ::
  "('q list \<Rightarrow> 'v list) \<Rightarrow> ('v list \<Rightarrow> int \<Rightarrow> 'd list list \<times> int list list) \<Rightarrow> 'c list
     \<Rightarrow> py_error + ('q \<rightharpoonup> ('c \<times> 'd) list) \<times> 'q list" where
  "retrieve_state model index chunks =
     (let queries = [];
          retrieval_results = map_of (map (\<lambda>query. (query, [])) queries)
      in retrieve_loop queries model index chunks (retrieval_results, []))"

definition retrieve ::
  "('q list \<Rightarrow> 'v list) \<Rightarrow> ('v list \<Rightarrow> int \<Rightarrow> 'd list list \<times> int list list) \<Rightarrow> 'c list
     \<Rightarrow> py_error + unit" where
  "retrieve model index chunks =
     (case (retrieve_state model index chunks
              :: py_error + ('q \<rightharpoonup> ('c \<times> 'd) list) \<times> 'q list) of
        Inl e \<Rightarrow> Inl e
      | Inr st \<Rightarrow> Inr ())"

section \<open>Chunker: \<^verbatim>\<open>create_splits\<close> and \<^verbatim>\<open>create_book_chunks\<close>\<close>

text \<open>
  \<^verbatim>\<open>create_splits\<close> hands the text to the splitter of the text-splitting library,
  built with the chunk size and the overlap, prints how many chunks it got and returns
  them. The splitter is a parameter: \<open>split_text size overlap text\<close>.
\<close>

type_synonym splitter = "int \<Rightarrow> rat \<Rightarrow> string \<Rightarrow> py_error + string list"

definition create_splits ::
  "splitter \<Rightarrow> string \<Rightarrow> int \<Rightarrow> rat \<Rightarrow> world \<Rightarrow> py_error + string list \<times> world" where
  "create_splits split_text texts split_chunk_size split_overlap w =
     (case split_text split_chunk_size split_overlap texts of
        Inl e \<Rightarrow> Inl e
      | Inr texts_chunks \<Rightarrow>
          Inr (texts_chunks, print (Created (length texts_chunks) (length texts)) w))"

text \<open>
  The rows of the book frame carry \<^verbatim>\<open>str_idx\<close> and \<^verbatim>\<open>processed_content\<close>; the rows
  of the chunk frame carry \<^verbatim>\<open>str_idx\<close>, \<^verbatim>\<open>chunk_id\<close> and \<^verbatim>\<open>chunk\<close>.
\<close>

record 'id keyed_row =
  str_idx :: 'id

record 'id book_row = "'id keyed_row" +
  processed_content :: string

record 'id chunk_row = "'id keyed_row" +
  chunk_id :: nat
  chunk :: string

text \<open>
  The inner loop of \<^verbatim>\<open>create_book_chunks\<close>: the tuples
  \<^verbatim>\<open>(chapter_idx, j, c_chunk)\<close> appended for the chunks of one chapter, \<open>j\<close> counting
  from 0 as \<^verbatim>\<open>enumerate\<close> does.
\<close>

definition labelled :: "'id \<Rightarrow> string list \<Rightarrow> ('id \<times> nat \<times> string) list" where
  "labelled chapter_idx chapter_chunks =
     map (\<lambda>(j, c_chunk). (chapter_idx, j, c_chunk)) (enumerate 0 chapter_chunks)"

text \<open>
  The outer loop: for every row in order, split its content and append the labelled
  chunks to \<open>chunks\<close>.
\<close>

fun book_chunks_loop ::
  "splitter \<Rightarrow> 'id book_row list \<Rightarrow> int \<Rightarrow> rat \<Rightarrow> ('id \<times> nat \<times> string) list \<Rightarrow> world
     \<Rightarrow> py_error + ('id \<times> nat \<times> string) list \<times> world" where
  "book_chunks_loop split_text [] split_chunk_size split_overlap chunks w = Inr (chunks, w)"
| "book_chunks_loop split_text (row # rows) split_chunk_size split_overlap chunks w =
     (case create_splits split_text (processed_content row) split_chunk_size split_overlap w of
        Inl e \<Rightarrow> Inl e
      | Inr (chapter_chunks, w') \<Rightarrow>
          book_chunks_loop split_text rows split_chunk_size split_overlap
            (chunks @ labelled (str_idx row) chapter_chunks) w')"

definition from_records :: "('id \<times> nat \<times> string) list \<Rightarrow> 'id chunk_row list" where
  "from_records chunks =
     map (\<lambda>(p, j, c). \<lparr>str_idx = p, chunk_id = j, chunk = c\<rparr>) chunks"

text \<open>
  After the loop, inside \<^verbatim>\<open>try\<close>: build the frame, write it to \<^verbatim>\<open>data/chunks.csv\<close>
  and return it. The bare \<^verbatim>\<open>except\<close> prints a message; the function then ends without a
  \<^verbatim>\<open>return\<close>, so its value is \<^verbatim>\<open>None\<close>. The loop is outside \<^verbatim>\<open>try\<close>. How the frame
  is laid out as text is the table library's \<open>to_csv\<close>.
\<close>

definition create_book_chunks ::
  "splitter \<Rightarrow> ('id chunk_row list \<Rightarrow> string) \<Rightarrow> 'id book_row list \<Rightarrow> int \<Rightarrow> rat \<Rightarrow> world
     \<Rightarrow> py_error + 'id chunk_row list option \<times> world" where
  "create_book_chunks split_text to_csv book_df split_chunk_size split_overlap w =
     (case book_chunks_loop split_text book_df split_chunk_size split_overlap [] w of
        Inl e \<Rightarrow> Inl e
      | Inr (chunks, w1) \<Rightarrow>
          (let chunks_df = from_records chunks in
           case write_file w1 ''data/chunks.csv'' (to_csv chunks_df) of
             Inr w2 \<Rightarrow> Inr (Some chunks_df, w2)
           | Inl e \<Rightarrow> Inr (None, print Csv_not_created w1)))"




section \<open>Persistence: \<^verbatim>\<open>save_embeddings\<close> and \<^verbatim>\<open>load_embeddings\<close>\<close>

text \<open>
  \<^verbatim>\<open>with open(file_path, "wb") as f: pickle.dump(embeddings, f)\<close> and
  \<^verbatim>\<open>with open(file_path, "rb") as f: loaded_embeddings = pickle.load(f)\<close>.
  The serialisation is the pickle library's: \<open>pickle_dumps\<close> gives the bytes of a
  matrix, \<open>pickle_loads\<close> reads bytes back, or fails on bytes that are no pickle.
\<close>

definition save_embeddings :: "('m \<Rightarrow> string) \<Rightarrow> 'm \<Rightarrow> string \<Rightarrow> world \<Rightarrow> py_error + world" where
  "save_embeddings pickle_dumps embeddings file_path w =
     write_file w file_path (pickle_dumps embeddings)"

definition load_embeddings :: "(string \<Rightarrow> 'm option) \<Rightarrow> string \<Rightarrow> world \<Rightarrow> py_error + 'm" where
  "load_embeddings pickle_loads file_path w =
     (case read_file w file_path of
        Inl e \<Rightarrow> Inl e
      | Inr bytes \<Rightarrow>
          (case pickle_loads bytes of
             None \<Rightarrow> Inl UnpicklingError
           | Some loaded_embeddings \<Rightarrow> Inr loaded_embeddings))"

section \<open>The pipeline: \<^verbatim>\<open>main\<close>\<close>

definition load_df ::
  "(world \<Rightarrow> string \<Rightarrow> py_error + 'r list) \<Rightarrow> string \<Rightarrow> string \<Rightarrow> string \<Rightarrow> world
     \<Rightarrow> py_error + 'r list" where
  "load_df read_csv dir_path file_name file_fmt w =
     (let file_path = dir_path @ ''/'' @ file_name @ ''.'' @ file_fmt in read_csv w file_path)"

text \<open>What \<^verbatim>\<open>main\<close> takes from the libraries it imports.\<close>

record ('id, 'p, 'v, 'ix) libraries =
  lib_read_book_csv :: "world \<Rightarrow> string \<Rightarrow> py_error + 'id book_row list"
  lib_read_passages_csv :: "world \<Rightarrow> string \<Rightarrow> py_error + 'p list"
  lib_split_text :: splitter
  lib_to_csv :: "'id chunk_row list \<Rightarrow> string"
  lib_encode :: "string list \<Rightarrow> 'v list"
  lib_shape :: "'v list \<Rightarrow> nat list"
  lib_pickle_dumps :: "'v list \<Rightarrow> string"
  lib_IndexFlatL2 :: "nat \<Rightarrow> 'ix"
  lib_index_add :: "'ix \<Rightarrow> 'v list \<Rightarrow> 'ix"

text \<open>
  \<^verbatim>\<open>main\<close> loads the two tables, chunks the book, embeds the chunk frame with
  \<^verbatim>\<open>rec_num=-1\<close> and \<^verbatim>\<open>text_field='chunk'\<close>, saves the embeddings under the default
  path and builds the flat index. Subscripting \<^verbatim>\<open>None\<close> raises \<^verbatim>\<open>TypeError\<close>.
\<close>

definition main :: "('id, 'p, 'v, 'ix) libraries \<Rightarrow> world \<Rightarrow> py_error + world" where
  "main lib w =
     (case load_df (lib_read_book_csv lib) ''data'' ''book_df'' ''csv'' w of
        Inl e \<Rightarrow> Inl e
      | Inr book_df \<Rightarrow>
     (case load_df (lib_read_passages_csv lib) ''data'' ''passages_df'' ''csv'' w of
        Inl e \<Rightarrow> Inl e
      | Inr passages_df \<Rightarrow>
     (case create_book_chunks (lib_split_text lib) (lib_to_csv lib) book_df 1000 (3 / 10) w of
        Inl e \<Rightarrow> Inl e
      | Inr (None, w1) \<Rightarrow> Inl TypeError
      | Inr (Some chunks_df, w1) \<Rightarrow>
          (let embeddings = embedd_dataset chunks_df (lib_encode lib) chunk (- 1) in
           case save_embeddings (lib_pickle_dumps lib) embeddings ''data/embeddings.pkl'' w1 of
             Inl e \<Rightarrow> Inl e
           | Inr w2 \<Rightarrow>
               (case build_faiss_flatl2_index (lib_IndexFlatL2 lib) (lib_index_add lib) embeddings
                       (lib_shape lib embeddings) of
                  Inl e \<Rightarrow> Inl e
                | Inr index \<Rightarrow> Inr w2)))))"

section \<open>Concrete inputs\<close>


definition read_only_world :: world where
  "read_only_world =
     \<lparr>file_data = Map.empty, may_write = (\<lambda>p. False), may_read = (\<lambda>p. True), stdout = []\<rparr>"

definition one_chunk :: splitter where
  "one_chunk split_chunk_size split_overlap texts = Inr [texts]"


section \<open>Properties of floating-point rounding\<close>

lemma round_half_even_error: "\<bar>of_int (round_half_even y) - y\<bar> \<le> 1 / 2"
proof -
  have "of_int \<lfloor>y\<rfloor> \<le> y" and "y < of_int \<lfloor>y\<rfloor> + 1"
    by linarith+
  then show ?thesis
    by (auto simp: round_half_even_def Let_def)
qed

lemma round_half_even_of_int: "round_half_even (of_int z) = z"
  by (simp add: round_half_even_def)

lemma round_half_even_nonneg: "0 \<le> y \<Longrightarrow> 0 \<le> round_half_even y"
  by (auto simp: round_half_even_def Let_def)

lemma binade_bounds:
  assumes "0 < x"
  shows "2 powi binade x \<le> x" and "x < 2 powi (binade x + 1)"
proof -
  obtain a b where q: "quotient_of x = (a, b)" by (cases "quotient_of x")
  have b: "0 < b" using q by (rule quotient_of_denom_pos)
  have x: "x = of_int a / of_int b" using q by (rule quotient_of_div)
  have a: "0 < a"
    using assms b x by (simp add: zero_less_divide_iff)
  define fa where "fa = floorlog 2 (nat a)"
  define fb where "fb = floorlog 2 (nat b)"
  have fa: "2 ^ (fa - 1) \<le> nat a" "nat a < 2 ^ fa"
    using floorlog_bounds [of "nat a" 2] a by (simp_all add: fa_def)
  have fb: "2 ^ (fb - 1) \<le> nat b" "nat b < 2 ^ fb"
    using floorlog_bounds [of "nat b" 2] b by (simp_all add: fb_def)
  have fa1: "1 \<le> fa" and fb1: "1 \<le> fb"
  proof -
    have "fa \<noteq> 0" using a by (simp add: fa_def floorlog_eq_zero_iff)
    then show "1 \<le> fa" by simp
    have "fb \<noteq> 0" using b by (simp add: fb_def floorlog_eq_zero_iff)
    then show "1 \<le> fb" by simp
  qed
  have ra: "(2 :: rat) ^ (fa - 1) \<le> of_int a" "of_int a < (2 :: rat) ^ fa"
  proof -
    have "of_nat (2 ^ (fa - 1)) \<le> (of_nat (nat a) :: rat)" using fa(1) by (simp only: of_nat_le_iff)
    then show "(2 :: rat) ^ (fa - 1) \<le> of_int a" using a by simp
    have "(of_nat (nat a) :: rat) < of_nat (2 ^ fa)" using fa(2) by (simp only: of_nat_less_iff)
    then show "of_int a < (2 :: rat) ^ fa" using a by simp
  qed
  have rb: "(2 :: rat) ^ (fb - 1) \<le> of_int b" "of_int b < (2 :: rat) ^ fb"
  proof -
    have "of_nat (2 ^ (fb - 1)) \<le> (of_nat (nat b) :: rat)" using fb(1) by (simp only: of_nat_le_iff)
    then show "(2 :: rat) ^ (fb - 1) \<le> of_int b" using b by simp
    have "(of_nat (nat b) :: rat) < of_nat (2 ^ fb)" using fb(2) by (simp only: of_nat_less_iff)
    then show "of_int b < (2 :: rat) ^ fb" using b by simp
  qed
  define d where "d = int fa - int fb"
  have up: "x < 2 powi (d + 1)"
  proof -
    have "x < 2 ^ fa / 2 ^ (fb - 1)"
      unfolding x using ra(2) rb(1) a b
      by (intro frac_less) simp_all
    also have "\<dots> = 2 powi (int fa - int (fb - 1))"
      by (simp add: power_int_diff)
    also have "int fa - int (fb - 1) = d + 1"
      using fb1 by (simp add: d_def)
    finally show ?thesis .
  qed
  have low: "2 powi (d - 1) \<le> x"
  proof -
    have "d - 1 = int (fa - 1) - int fb"
      using fa1 by (simp add: d_def of_nat_diff)
    then have "2 powi (d - 1) = (2 :: rat) powi (int (fa - 1) - int fb)"
      by simp
    also have "\<dots> = 2 ^ (fa - 1) / 2 ^ fb"
      by (simp add: power_int_diff)
    also have "\<dots> \<le> x"
      unfolding x using ra(1) rb(2) a b
      by (intro frac_le) simp_all
    finally show ?thesis .
  qed
  have bin: "binade x = (if 2 powi d \<le> x then d else d - 1)"
    by (simp add: binade_def q fa_def fb_def d_def Let_def)
  show "2 powi binade x \<le> x"
    using low by (simp add: bin)
  show "x < 2 powi (binade x + 1)"
    using up by (auto simp: bin not_le)
qed

lemma unit_roundoff_pos: "0 < unit_roundoff"
  by (simp add: unit_roundoff_def)

lemma tiny_pos: "0 < tiny"
  by (simp add: tiny_def)

lemma fl_0: "fl 0 = 0"
  by (simp add: fl_def)

lemma fl_nonneg:
  assumes "0 \<le> x"
  shows "0 \<le> fl x"
proof (cases "x = 0")
  case True
  then show ?thesis by (simp add: fl_def)
next
  case False
  define ulp :: rat where "ulp = 2 powi (max (binade \<bar>x\<bar>) (- 1022) - 52)"
  have "0 < ulp" by (simp add: ulp_def)
  then have "0 \<le> x / ulp" using assms by simp
  then have "0 \<le> round_half_even (x / ulp)" by (rule round_half_even_nonneg)
  then have "0 \<le> of_int (round_half_even (x / ulp)) * ulp"
    using \<open>0 < ulp\<close> by simp
  then show ?thesis
    using False by (simp add: fl_def ulp_def Let_def)
qed

lemma fl_error:
  assumes "0 \<le> x"
  shows "\<bar>fl x - x\<bar> \<le> x * unit_roundoff + tiny"
proof (cases "x = 0")
  case True
  then show ?thesis using tiny_pos by (simp add: fl_def)
next
  case False
  then have pos: "0 < x" using assms by simp
  define e where "e = max (binade x) (- 1022)"
  define ulp :: rat where "ulp = 2 powi (e - 52)"
  have ulp: "0 < ulp" by (simp add: ulp_def)
  have fl: "fl x = of_int (round_half_even (x / ulp)) * ulp"
    using pos by (simp add: fl_def ulp_def e_def Let_def)
  have "\<bar>fl x - x\<bar> = \<bar>of_int (round_half_even (x / ulp)) - x / ulp\<bar> * ulp"
  proof -
    have "fl x - x = (of_int (round_half_even (x / ulp)) - x / ulp) * ulp"
      using ulp by (simp add: fl field_simps)
    then show ?thesis
      using ulp by (simp add: abs_mult)
  qed
  also have "\<dots> \<le> 1 / 2 * ulp"
    using round_half_even_error [of "x / ulp"] ulp by (intro mult_right_mono) simp_all
  also have "1 / 2 * ulp = 2 powi (e - 53)"
  proof -
    have "(2 :: rat) powi (e - 53) = 2 powi ((e - 52) - 1)" by simp
    also have "\<dots> = 2 powi (e - 52) / 2"
      by (subst power_int_diff) simp_all
    finally show ?thesis by (simp add: ulp_def)
  qed
  also have "2 powi (e - 53) \<le> x * unit_roundoff + tiny"
  proof (cases "- 1022 \<le> binade x")
    case True
    then have "e = binade x" by (simp add: e_def)
    then have "(2 :: rat) powi (e - 53) = 2 powi binade x / 2 ^ 53"
      by (simp add: power_int_diff)
    also have "\<dots> \<le> x / 2 ^ 53"
      using binade_bounds(1) [OF pos] by (simp add: divide_right_mono)
    finally show ?thesis
      using tiny_pos by (simp add: unit_roundoff_def)
  next
    case False
    then have "e = - 1022" by (simp add: e_def)
    then have "(2 :: rat) powi (e - 53) = tiny"
      by (simp add: tiny_def power_int_minus field_simps)
    then show ?thesis
      using pos unit_roundoff_pos by simp
  qed
  finally show ?thesis .
qed

lemma fl_upper: "0 \<le> x \<Longrightarrow> fl x \<le> (1 + unit_roundoff) * x + tiny"
  using fl_error [of x] by (simp add: algebra_simps abs_le_iff)

lemma fl_lower: "0 \<le> x \<Longrightarrow> (1 - unit_roundoff) * x - tiny \<le> fl x"
  using fl_error [of x] by (simp add: algebra_simps abs_le_iff)

lemma powi2_less_imp_less:
  assumes "(2 :: rat) powi m < 2 powi n"
  shows "m < n"
proof (rule ccontr)
  assume "\<not> m < n"
  then have "(2 :: rat) powi n \<le> 2 powi m"
    by (intro power_int_increasing) simp_all
  with assms show False by simp
qed

lemma fl_of_nat:
  assumes "n < 2 ^ 53"
  shows "fl (of_nat n) = of_nat n"
proof (cases "n = 0")
  case True
  then show ?thesis by (simp add: fl_def)
next
  case False
  define x :: rat where "x = of_nat n"
  have pos: "0 < x" and one: "1 \<le> x" using False by (simp_all add: x_def)
  have lt: "x < 2 powi 53"
  proof -
    have "(of_nat n :: rat) < of_nat (2 ^ 53)" using assms by (simp only: of_nat_less_iff)
    then show ?thesis by (simp add: x_def)
  qed
  define e where "e = binade x"
  have "(2 :: rat) powi e < 2 powi 53"
    using binade_bounds(1) [OF pos] lt by (simp add: e_def)
  then have e53: "e < 53"
    by (rule powi2_less_imp_less)
  have "(2 :: rat) powi 0 < 2 powi (e + 1)"
    using binade_bounds(2) [OF pos] one by (simp add: e_def)
  then have "0 < e + 1"
    by (rule powi2_less_imp_less)
  then have e0: "0 \<le> e"
    by simp
  define j where "j = nat (52 - e)"
  have ulp: "(2 :: rat) powi (e - 52) = 1 / 2 ^ j"
  proof -
    have "e - 52 = - int j" using e53 by (simp add: j_def)
    then have "(2 :: rat) powi (e - 52) = 2 powi (- int j)" by simp
    also have "\<dots> = inverse (2 ^ j)" by (simp only: power_int_minus power_int_of_nat)
    finally show ?thesis by (simp add: field_simps)
  qed
  have "fl x = of_int (round_half_even (x / (1 / 2 ^ j))) * (1 / 2 ^ j)"
    using pos e0 ulp by (simp add: fl_def e_def Let_def max_def)
  also have "x / (1 / 2 ^ j) = of_int (int n * 2 ^ j)"
    by (simp add: x_def)
  also have "of_int (round_half_even (of_int (int n * 2 ^ j))) * (1 / 2 ^ j) = x"
  proof -
    have "round_half_even (of_int (int n * 2 ^ j)) = int n * 2 ^ j"
      by (rule round_half_even_of_int)
    then have "of_int (round_half_even (of_int (int n * 2 ^ j))) * (1 / 2 ^ j)
        = of_int (int n * 2 ^ j) * (1 / 2 ^ j)"
      by (simp only:)
    also have "\<dots> = x"
      by (simp add: x_def)
    finally show ?thesis .
  qed
  finally show ?thesis by (simp add: x_def)
qed

lemma fl_1: "fl 1 = 1"
  using fl_of_nat [of 1] by simp

lemma foldl_fl_nonneg:
  assumes "\<forall>t \<in> set ts. 0 \<le> t" and "0 \<le> s"
  shows "0 \<le> foldl (\<lambda>s x. fl (s + x)) s ts"
  using assms by (induction ts arbitrary: s) (simp_all add: fl_nonneg)

lemma foldl_fl_upper:
  assumes "\<forall>t \<in> set ts. 0 \<le> t" and "0 \<le> s"
  shows "foldl (\<lambda>s x. fl (s + x)) s ts
    \<le> (1 + unit_roundoff) ^ length ts * (s + sum_list ts)
      + of_nat (length ts) * (1 + unit_roundoff) ^ length ts * tiny"
  using assms
proof (induction ts arbitrary: s)
  case Nil
  then show ?case by simp
next
  case (Cons t ts)
  define g where "g = (1 + unit_roundoff) ^ length ts"
  define m :: rat where "m = of_nat (length ts)"
  have g: "1 \<le> g" using unit_roundoff_pos by (simp add: g_def)
  have m: "0 \<le> m" by (simp add: m_def)
  have st: "0 \<le> s + t" and ts: "\<forall>t \<in> set ts. 0 \<le> t" and sum: "0 \<le> sum_list ts"
    using Cons.prems by (simp_all add: sum_list_nonneg)
  have s1: "0 \<le> fl (s + t)" using st by (rule fl_nonneg)
  have "foldl (\<lambda>s x. fl (s + x)) (fl (s + t)) ts \<le> g * (fl (s + t) + sum_list ts) + m * g * tiny"
    using Cons.IH [OF ts s1] by (simp add: g_def m_def)
  also have "\<dots> \<le> g * (((1 + unit_roundoff) * (s + t) + tiny) + sum_list ts) + m * g * tiny"
    using fl_upper [OF st] g by (intro add_right_mono mult_left_mono) simp_all
  also have "\<dots> \<le> g * ((1 + unit_roundoff) * (s + t) + (1 + unit_roundoff) * sum_list ts)
      + (g * tiny + m * g * tiny)"
  proof -
    have "sum_list ts \<le> (1 + unit_roundoff) * sum_list ts"
      using sum unit_roundoff_pos by (simp add: mult_le_cancel_right1)
    then have "g * sum_list ts \<le> g * ((1 + unit_roundoff) * sum_list ts)"
      using g by (intro mult_left_mono) simp_all
    then show ?thesis by (simp add: algebra_simps)
  qed
  also have "\<dots> = (g * (1 + unit_roundoff)) * (s + t + sum_list ts) + (m + 1) * g * tiny"
    by (simp add: algebra_simps)
  also have "\<dots> \<le> (g * (1 + unit_roundoff)) * (s + t + sum_list ts)
      + (m + 1) * (g * (1 + unit_roundoff)) * tiny"
  proof -
    have "g \<le> g * (1 + unit_roundoff)"
      using g unit_roundoff_pos by (simp add: mult_le_cancel_left1)
    then have "(m + 1) * g * tiny \<le> (m + 1) * (g * (1 + unit_roundoff)) * tiny"
      using m tiny_pos by (intro mult_right_mono mult_left_mono) simp_all
    then show ?thesis by simp
  qed
  finally show ?case
    by (simp add: g_def m_def algebra_simps)
qed

lemma foldl_fl_lower:
  assumes "\<forall>t \<in> set ts. 0 \<le> t" and "0 \<le> s"
  shows "(1 - unit_roundoff) ^ length ts * (s + sum_list ts) - of_nat (length ts) * tiny
    \<le> foldl (\<lambda>s x. fl (s + x)) s ts"
  using assms
proof (induction ts arbitrary: s)
  case Nil
  then show ?case by simp
next
  case (Cons t ts)
  define h where "h = (1 - unit_roundoff) ^ length ts"
  define m :: rat where "m = of_nat (length ts)"
  have u1: "0 \<le> 1 - unit_roundoff" "1 - unit_roundoff \<le> 1"
    using unit_roundoff_pos by (simp_all add: unit_roundoff_def)
  have h: "0 \<le> h" "h \<le> 1"
    using u1 by (simp_all add: h_def power_le_one)
  have st: "0 \<le> s + t" and ts: "\<forall>t \<in> set ts. 0 \<le> t" and sum: "0 \<le> sum_list ts"
    using Cons.prems by (simp_all add: sum_list_nonneg)
  have s1: "0 \<le> fl (s + t)" using st by (rule fl_nonneg)
  have "(h * (1 - unit_roundoff)) * (s + t + sum_list ts) - (m + 1) * tiny
      \<le> h * (((1 - unit_roundoff) * (s + t) - tiny) + sum_list ts) - m * tiny"
  proof -
    have "h * ((1 - unit_roundoff) * sum_list ts) \<le> h * sum_list ts"
      using h(1) sum u1 by (intro mult_left_mono) (simp_all add: mult_le_cancel_right2)
    moreover have "h * tiny \<le> tiny"
      using h(2) tiny_pos by (simp add: mult_le_cancel_right2)
    ultimately show ?thesis by (simp add: algebra_simps)
  qed
  also have "\<dots> \<le> h * (fl (s + t) + sum_list ts) - m * tiny"
    using fl_lower [OF st] h(1) by (intro diff_right_mono add_right_mono mult_left_mono) simp_all
  also have "\<dots> \<le> foldl (\<lambda>s x. fl (s + x)) (fl (s + t)) ts"
    using Cons.IH [OF ts s1] by (simp add: h_def m_def)
  finally show ?case
    by (simp add: h_def m_def algebra_simps)
qed

lemma foldl_fl_ones:
  assumes "j + m < 2 ^ 53"
  shows "foldl (\<lambda>s x. fl (s + x)) (of_nat j) (replicate m 1) = of_nat (j + m)"
  using assms
proof (induction m arbitrary: j)
  case 0
  then show ?case by simp
next
  case (Suc m)
  have "fl (of_nat j + 1) = of_nat (Suc j)"
    using fl_of_nat [of "Suc j"] Suc.prems by (simp add: add.commute)
  then show ?case
    using Suc.IH [of "Suc j"] Suc.prems by simp
qed

lemma py_sum_ones: "n < 2 ^ 53 \<Longrightarrow> py_sum (replicate n 1) = of_nat n"
  using foldl_fl_ones [of 0 n] by (simp add: py_sum_def)

lemma py_sum_zeros: "py_sum (replicate n 0) = 0"
proof -
  have "foldl (\<lambda>s x. fl (s + x)) 0 (replicate n 0) = 0"
    by (induction n) (simp_all add: fl_0)
  then show ?thesis by (simp add: py_sum_def)
qed

lemma power_1_plus_le:
  fixes u :: rat
  assumes "0 \<le> u" and "of_nat n * u \<le> 1 / 2"
  shows "(1 + u) ^ n \<le> 1 + 2 * of_nat n * u"
  using assms(2)
proof (induction n)
  case 0
  then show ?case by simp
next
  case (Suc n)
  have nu: "of_nat n * u \<le> 1 / 2"
    using Suc.prems assms(1) by (simp add: algebra_simps)
  have "(1 + u) ^ Suc n = (1 + u) ^ n * (1 + u)" by simp
  also have "\<dots> \<le> (1 + 2 * of_nat n * u) * (1 + u)"
    using Suc.IH [OF nu] assms(1) by (intro mult_right_mono) simp_all
  also have "\<dots> = 1 + 2 * of_nat n * u + u + 2 * (of_nat n * u) * u"
    by (simp add: algebra_simps)
  also have "\<dots> \<le> 1 + 2 * of_nat n * u + u + 2 * (1 / 2) * u"
    using nu assms(1) by (intro add_mono mult_right_mono mult_left_mono) simp_all
  also have "\<dots> = 1 + 2 * of_nat (Suc n) * u"
    by (simp add: algebra_simps)
  finally show ?case .
qed

lemma power_1_minus_ge:
  fixes u :: rat
  assumes "0 \<le> u" and "u \<le> 1"
  shows "1 - of_nat n * u \<le> (1 - u) ^ n"
proof (induction n)
  case 0
  then show ?case by simp
next
  case (Suc n)
  show ?case
  proof (cases "of_nat n * u \<le> 1")
    case True
    have "1 - of_nat (Suc n) * u \<le> (1 - of_nat n * u) * (1 - u)"
    proof -
      have "0 \<le> of_nat n * u * u" using assms(1) by simp
      then show ?thesis by (simp add: algebra_simps)
    qed
    also have "\<dots> \<le> (1 - u) ^ n * (1 - u)"
      using Suc.IH assms by (intro mult_right_mono) simp_all
    finally show ?thesis by (simp add: mult.commute)
  next
    case False
    then have "1 - of_nat (Suc n) * u \<le> 0"
      using assms(1) by (simp add: algebra_simps)
    also have "0 \<le> (1 - u) ^ Suc n"
      using assms(2) by simp
    finally show ?thesis .
  qed
qed

section \<open>Evaluating the rounding at a given number\<close>

text \<open>
  The rounding of \<open>y\<close> is \<open>m\<close> when \<open>y\<close> is closer than one half to \<open>m\<close>; the double
  nearest to \<open>x\<close> is found from its binary exponent and its significand.
\<close>

lemma round_half_even_eqI:
  assumes "\<bar>y - of_int m\<bar> < 1 / 2"
  shows "round_half_even y = m"
proof (cases "of_int m \<le> y")
  case True
  then have "\<lfloor>y\<rfloor> = m"
    using assms by (intro floor_unique) linarith+
  then show ?thesis
    using assms True by (simp add: round_half_even_def)
next
  case False
  have "of_int (m - 1) \<le> y" and "y < of_int (m - 1) + 1"
    using assms False by (simp_all add: abs_less_iff)
  then have "\<lfloor>y\<rfloor> = m - 1"
    by (rule floor_unique)
  then show ?thesis
    using assms False by (auto simp: round_half_even_def)
qed

lemma binade_eqI:
  assumes "2 powi e \<le> x" and "x < 2 powi (e + 1)"
  shows "binade x = e"
proof -
  have "(0 :: rat) < 2 powi e" by simp
  then have pos: "0 < x" using assms(1) by (rule less_le_trans)
  have "(2 :: rat) powi binade x < 2 powi (e + 1)"
    using binade_bounds(1) [OF pos] assms(2) by (rule le_less_trans)
  then have "binade x < e + 1" by (rule powi2_less_imp_less)
  moreover have "(2 :: rat) powi e < 2 powi (binade x + 1)"
    using assms(1) binade_bounds(2) [OF pos] by (rule le_less_trans)
  then have "e < binade x + 1" by (rule powi2_less_imp_less)
  ultimately show ?thesis by simp
qed

lemma fl_eqI:
  assumes "2 powi e \<le> x" and "x < 2 powi (e + 1)" and "- 1022 \<le> e"
    and "round_half_even (x / 2 powi (e - 52)) = m"
  shows "fl x = of_int m * 2 powi (e - 52)"
proof -
  have "(0 :: rat) < 2 powi e" by simp
  then have pos: "0 < x" using assms(1) by (rule less_le_trans)
  have "binade \<bar>x\<bar> = e"
    using pos assms(1,2) by (simp add: binade_eqI)
  then show ?thesis
    using pos assms(3,4) by (simp add: fl_def Let_def max_def)
qed

lemma fl_1_80: "fl (1 / 80) = 3602879701896397 / 288230376151711744"
proof -
  have "fl (1 / 80) = of_int 7205759403792794 * 2 powi (- 7 - 52)"
    by (rule fl_eqI) (simp_all add: round_half_even_eqI)
  then show ?thesis by simp
qed

lemma fl_1_80_again: "fl (3602879701896397 / 288230376151711744) = 3602879701896397 / 288230376151711744"
proof -
  have "fl (3602879701896397 / 288230376151711744) = of_int 7205759403792794 * 2 powi (- 7 - 52)"
    by (rule fl_eqI) (simp_all add: round_half_even_eqI)
  then show ?thesis by simp
qed

lemma round_1_80: "round_half_even (3602879701896397 / 288230376151711744 * 10 ^ 3) = 13"
  by (rule round_half_even_eqI) simp

lemma fl_2_3: "fl (2 / 3) = 6004799503160661 / 9007199254740992"
proof -
  have "fl (2 / 3) = of_int 6004799503160661 * 2 powi (- 1 - 52)"
    by (rule fl_eqI) (simp_all add: round_half_even_eqI)
  then show ?thesis by simp
qed

lemma fl_3_80: "fl (3 / 80) = 5404319552844595 / 144115188075855872"
proof -
  have "fl (3 / 80) = of_int 5404319552844595 * 2 powi (- 5 - 52)"
    by (rule fl_eqI) (simp_all add: round_half_even_eqI)
  then show ?thesis by simp
qed

lemma fl_667: "fl (667 / 1000) = 3003900951456121 / 4503599627370496"
proof -
  have "fl (667 / 1000) = of_int 6007801902912242 * 2 powi (- 1 - 52)"
    by (rule fl_eqI) (simp_all add: round_half_even_eqI)
  then show ?thesis by simp
qed

lemma fl_13: "fl (13 / 1000) = 7493989779944505 / 576460752303423488"
proof -
  have "fl (13 / 1000) = of_int 7493989779944505 * 2 powi (- 7 - 52)"
    by (rule fl_eqI) (simp_all add: round_half_even_eqI)
  then show ?thesis by simp
qed

lemma fl_37: "fl (37 / 1000) = 5332261958806667 / 144115188075855872"
proof -
  have "fl (37 / 1000) = of_int 5332261958806667 * 2 powi (- 5 - 52)"
    by (rule fl_eqI) (simp_all add: round_half_even_eqI)
  then show ?thesis by simp
qed

lemma fl_2_3_again: "fl (6004799503160661 / 9007199254740992) = 6004799503160661 / 9007199254740992"
proof -
  have "fl (6004799503160661 / 9007199254740992) = of_int 6004799503160661 * 2 powi (- 1 - 52)"
    by (rule fl_eqI) (simp_all add: round_half_even_eqI)
  then show ?thesis by simp
qed

lemma fl_3_80_again: "fl (5404319552844595 / 144115188075855872) = 5404319552844595 / 144115188075855872"
proof -
  have "fl (5404319552844595 / 144115188075855872) = of_int 5404319552844595 * 2 powi (- 5 - 52)"
    by (rule fl_eqI) (simp_all add: round_half_even_eqI)
  then show ?thesis by simp
qed


section \<open>Properties of the evaluator\<close>

lemma comprehension_all_Inr:
  "(\<And>x. x \<in> set xs \<Longrightarrow> f x = Inr (g x)) \<Longrightarrow> comprehension f xs = Inr (map g xs)"
  by (induction xs) simp_all

lemma compute_recall_at_k_empty: "compute_recall_at_k nn_gt [] k = Inl ZeroDivisionError"
  by (simp add: compute_recall_at_k_def py_truediv_def py_sum_def fl_0)

lemma compute_recall_at_k_zero_k:
  assumes "ann \<noteq> []" "nn_gt \<noteq> []"
  shows "compute_recall_at_k nn_gt ann 0 = Inl ZeroDivisionError"
proof -
  have "recall_term nn_gt ann 0 0 = Inl ZeroDivisionError"
    using assms by (simp add: recall_term_def getitem_def py_truediv_def)
  moreover have "[0..<length ann] = 0 # [1..<length ann]"
    using assms(1) by (simp add: upt_conv_Cons)
  ultimately show ?thesis
    by (simp add: compute_recall_at_k_def)
qed

text \<open>
  The rounded quotients add up to nearly the sum of the exact quotients.
\<close>

lemma tiny_le: "tiny \<le> unit_roundoff / 32"
  by (simp add: tiny_def unit_roundoff_def)

lemma unit_roundoff_le: "unit_roundoff \<le> 1 / 8"
  by (simp add: unit_roundoff_def)

lemma sum_list_fl_upper:
  assumes "\<And>i. i \<in> set js \<Longrightarrow> 0 \<le> x i"
  shows "sum_list (map (\<lambda>i. fl (x i)) js)
    \<le> (1 + unit_roundoff) * sum_list (map x js) + of_nat (length js) * tiny"
  using assms
proof (induction js)
  case Nil
  then show ?case by simp
next
  case (Cons j js)
  have "fl (x j) \<le> (1 + unit_roundoff) * x j + tiny"
    using Cons.prems by (intro fl_upper) simp
  moreover have "sum_list (map (\<lambda>i. fl (x i)) js)
      \<le> (1 + unit_roundoff) * sum_list (map x js) + of_nat (length js) * tiny"
    using Cons.prems by (intro Cons.IH) simp
  ultimately show ?case by (simp add: algebra_simps)
qed

lemma sum_list_fl_lower:
  assumes "\<And>i. i \<in> set js \<Longrightarrow> 0 \<le> x i"
  shows "(1 - unit_roundoff) * sum_list (map x js) - of_nat (length js) * tiny
    \<le> sum_list (map (\<lambda>i. fl (x i)) js)"
  using assms
proof (induction js)
  case Nil
  then show ?case by simp
next
  case (Cons j js)
  have "(1 - unit_roundoff) * x j - tiny \<le> fl (x j)"
    using Cons.prems by (intro fl_lower) simp
  moreover have "(1 - unit_roundoff) * sum_list (map x js) - of_nat (length js) * tiny
      \<le> sum_list (map (\<lambda>i. fl (x i)) js)"
    using Cons.prems by (intro Cons.IH) simp
  ultimately show ?case by (simp add: algebra_simps)
qed

text \<open>The error of the whole computation, from the sum of the exact quotients.\<close>

lemma rounded_mean_upper:
  fixes x :: "nat \<Rightarrow> rat"
  assumes x: "\<And>i. i < n \<Longrightarrow> 0 \<le> x i" and n: "0 < n" "n + 3 \<le> 2 ^ 52"
  defines "M \<equiv> sum_list (map x [0..<n]) / of_nat n"
  defines "r \<equiv> py_round (fl (py_sum (map (\<lambda>i. fl (x i)) [0..<n]) / of_nat n)) 3"
  shows "r \<le> M + 1 / 2000 + (M + 1) * (of_nat (n + 3) / 2 ^ 52)"
proof -
  define u where "u = unit_roundoff"
  define N :: rat where "N = of_nat n"
  define X where "X = sum_list (map x [0..<n])"
  define T where "T = sum_list (map (\<lambda>i. fl (x i)) [0..<n])"
  define S where "S = py_sum (map (\<lambda>i. fl (x i)) [0..<n])"
  define m' where "m' = fl (S / N)"
  define q1 :: rat where "q1 = of_int (round_half_even (m' * 1000)) / 1000"
  define \<tau> :: rat where "\<tau> = of_nat (n + 3) / 2 ^ 52"
  have u: "0 < u" "u \<le> 1 / 8" "tiny \<le> u / 32" "0 < tiny"
    using unit_roundoff_pos unit_roundoff_le tiny_le tiny_pos by (simp_all add: u_def)
  have N: "1 \<le> N" using n(1) by (simp add: N_def Suc_le_eq)
  have X0: "0 \<le> X" unfolding X_def using x by (intro sum_list_nonneg) auto
  have M: "M = X / N" "0 \<le> M" using X0 N by (simp_all add: M_def X_def N_def)
  have XM: "X = N * M" using N by (simp add: M(1))
  have t0: "\<forall>t \<in> set (map (\<lambda>i. fl (x i)) [0..<n]). 0 \<le> t"
    using x by (auto intro: fl_nonneg)
  have T: "T \<le> (1 + u) * X + N * tiny"
    unfolding T_def X_def u_def N_def using sum_list_fl_upper [of "[0..<n]" x] x by simp
  have S0: "0 \<le> S"
    unfolding S_def py_sum_def using t0 by (intro foldl_fl_nonneg) simp_all
  have S: "S \<le> (1 + u) ^ n * T + N * (1 + u) ^ n * tiny"
    using foldl_fl_upper [OF t0, of 0] by (simp add: S_def T_def py_sum_def u_def N_def)
  have pw: "(1 + u) ^ (n + 3) \<le> 1 + \<tau>"
  proof -
    have "of_nat (n + 3) * u \<le> 1 / 2"
    proof -
      have "(of_nat (n + 3) :: rat) \<le> of_nat (2 ^ 52)" using n(2) by (simp only: of_nat_le_iff)
      then have "(of_nat (n + 3) :: rat) * u \<le> 2 ^ 52 * u"
        using u(1) by (intro mult_right_mono) simp_all
      then show ?thesis by (simp add: u_def unit_roundoff_def)
    qed
    then have "(1 + u) ^ (n + 3) \<le> 1 + 2 * of_nat (n + 3) * u"
      using u(1) by (intro power_1_plus_le) simp_all
    also have "\<dots> = 1 + \<tau>"
      by (simp add: \<tau>_def u_def unit_roundoff_def)
    finally show ?thesis .
  qed
  have g1: "1 \<le> (1 + u) ^ j" for j using u(1) by simp
  have gmono: "(1 + u) ^ j \<le> (1 + u) ^ (n + 3)" if "j \<le> n + 3" for j
    using that u(1) by (intro power_increasing) simp_all
  have \<tau>1: "\<tau> \<le> 1"
  proof -
    have "(of_nat (n + 3) :: rat) \<le> of_nat (2 ^ 52)" using n(2) by (simp only: of_nat_le_iff)
    then show ?thesis by (simp add: \<tau>_def)
  qed
  have g2: "(1 + u) ^ j \<le> 2" if "j \<le> n + 3" for j
    using gmono [OF that] pw \<tau>1 by simp
  text \<open>the sum\<close>
  have "S \<le> (1 + u) ^ n * ((1 + u) * X + N * tiny) + N * (1 + u) ^ n * tiny"
    using S T g1 [of n] by (meson add_right_mono mult_left_mono order_trans zero_le_one)
  also have "\<dots> = (1 + u) ^ (n + 1) * X + 2 * N * ((1 + u) ^ n * tiny)"
    by (simp add: algebra_simps)
  also have "\<dots> \<le> (1 + u) ^ (n + 1) * X + 2 * N * (2 * tiny)"
    using g2 [of n] u(4) N by (intro add_left_mono mult_left_mono mult_right_mono) simp_all
  finally have S': "S \<le> (1 + u) ^ (n + 1) * X + 4 * N * tiny"
    by simp
  text \<open>the mean\<close>
  have m0: "S / N \<le> (1 + u) ^ (n + 1) * M + 4 * tiny"
  proof -
    have "S / N \<le> ((1 + u) ^ (n + 1) * X + 4 * N * tiny) / N"
      using S' N by (intro divide_right_mono) simp_all
    also have "\<dots> = (1 + u) ^ (n + 1) * M + 4 * tiny"
      using N by (simp add: XM add_divide_distrib)
    finally show ?thesis .
  qed
  have m00: "0 \<le> S / N" using S0 N by simp
  have "m' \<le> (1 + u) * (S / N) + tiny"
    unfolding m'_def u_def using m00 by (rule fl_upper)
  also have "\<dots> \<le> (1 + u) * ((1 + u) ^ (n + 1) * M + 4 * tiny) + tiny"
    using m0 u(1) by (intro add_right_mono mult_left_mono) simp_all
  also have "\<dots> = (1 + u) ^ (n + 2) * M + ((1 + u) * (4 * tiny) + tiny)"
    by (simp add: algebra_simps)
  also have "\<dots> \<le> (1 + u) ^ (n + 2) * M + (2 * (4 * tiny) + tiny)"
    using u by (intro add_left_mono add_right_mono mult_right_mono) simp_all
  finally have m'b: "m' \<le> (1 + u) ^ (n + 2) * M + 9 * tiny"
    by simp
  have m'0: "0 \<le> m'" unfolding m'_def using m00 by (rule fl_nonneg)
  text \<open>the rounding to three decimals\<close>
  have q1: "q1 \<le> m' + 1 / 2000" "0 \<le> q1"
  proof -
    have "\<bar>of_int (round_half_even (m' * 1000)) - m' * 1000\<bar> \<le> 1 / 2"
      by (rule round_half_even_error)
    then have "of_int (round_half_even (m' * 1000)) \<le> m' * 1000 + 1 / 2"
      by linarith
    then show "q1 \<le> m' + 1 / 2000"
      by (simp add: q1_def field_simps)
    have "0 \<le> round_half_even (m' * 1000)"
      using m'0 by (intro round_half_even_nonneg) simp
    then show "0 \<le> q1" by (simp add: q1_def)
  qed
  have r: "r = fl q1"
    by (simp add: r_def py_round_def q1_def m'_def S_def N_def)
  have "r \<le> (1 + u) * q1 + tiny"
    unfolding r u_def using q1(2) by (rule fl_upper)
  also have "\<dots> \<le> (1 + u) * (((1 + u) ^ (n + 2) * M + 9 * tiny) + 1 / 2000) + tiny"
    using q1(1) m'b u(1) by (intro add_right_mono mult_left_mono) simp_all
  also have "\<dots> = ((1 + u) * (1 + u) ^ (n + 2)) * M + ((1 + u) * (9 * tiny) + tiny) + (1 + u) / 2000"
    by (simp add: algebra_simps)
  also have "(1 + u) * (1 + u) ^ (n + 2) = (1 + u) ^ (n + 3)"
  proof -
    have "n + 3 = Suc (n + 2)" by simp
    then show ?thesis by (simp only: power_Suc)
  qed
  finally have "r \<le> (1 + u) ^ (n + 3) * M + ((1 + u) * (9 * tiny) + tiny) + (1 + u) / 2000" .
  also have "\<dots> \<le> (1 + \<tau>) * M + (2 * (9 * tiny) + tiny) + (1 + u) / 2000"
    using pw M(2) u
    by (intro add_mono mult_right_mono) simp_all
  also have "\<dots> \<le> (1 + \<tau>) * M + 1 / 2000 + \<tau>"
  proof -
    have "19 * tiny + u / 2000 \<le> 8 * u" using u by simp
    also have "8 * u \<le> \<tau>"
    proof -
      have "(4 :: rat) \<le> of_nat (n + 3)" using n(1) by simp
      then show ?thesis by (simp add: \<tau>_def u_def unit_roundoff_def field_simps)
    qed
    finally show ?thesis by (simp add: add_divide_distrib)
  qed
  finally have "r \<le> (1 + \<tau>) * M + 1 / 2000 + \<tau>" .
  also have "\<dots> = M + 1 / 2000 + (M + 1) * \<tau>"
    by (simp add: algebra_simps)
  finally show ?thesis
    by (simp only: \<tau>_def)
qed

lemma rounded_mean_lower:
  fixes x :: "nat \<Rightarrow> rat"
  assumes x: "\<And>i. i < n \<Longrightarrow> 0 \<le> x i" and n: "0 < n" "n + 3 \<le> 2 ^ 52"
  defines "M \<equiv> sum_list (map x [0..<n]) / of_nat n"
  defines "r \<equiv> py_round (fl (py_sum (map (\<lambda>i. fl (x i)) [0..<n]) / of_nat n)) 3"
  shows "M - 1 / 2000 - (M + 1) * (of_nat (n + 3) / 2 ^ 52) \<le> r"
proof -
  define u where "u = unit_roundoff"
  define h where "h = 1 - u"
  define N :: rat where "N = of_nat n"
  define X where "X = sum_list (map x [0..<n])"
  define T where "T = sum_list (map (\<lambda>i. fl (x i)) [0..<n])"
  define S where "S = py_sum (map (\<lambda>i. fl (x i)) [0..<n])"
  define m' where "m' = fl (S / N)"
  define q1 :: rat where "q1 = of_int (round_half_even (m' * 1000)) / 1000"
  define \<tau> :: rat where "\<tau> = of_nat (n + 3) / 2 ^ 52"
  have u: "0 < u" "u \<le> 1 / 8" "tiny \<le> u / 32" "0 < tiny"
    using unit_roundoff_pos unit_roundoff_le tiny_le tiny_pos by (simp_all add: u_def)
  have h: "0 \<le> h" "h \<le> 1" using u by (simp_all add: h_def)
  have hp: "0 \<le> h ^ j" "h ^ j \<le> 1" for j
    using h by (simp_all add: power_le_one)
  have N: "1 \<le> N" using n(1) by (simp add: N_def Suc_le_eq)
  have X0: "0 \<le> X" unfolding X_def using x by (intro sum_list_nonneg) auto
  have M: "M = X / N" "0 \<le> M" using X0 N by (simp_all add: M_def X_def N_def)
  have XM: "X = N * M" using N by (simp add: M(1))
  have t0: "\<forall>t \<in> set (map (\<lambda>i. fl (x i)) [0..<n]). 0 \<le> t"
    using x by (auto intro: fl_nonneg)
  have T: "h * X - N * tiny \<le> T"
    unfolding T_def X_def u_def h_def N_def using sum_list_fl_lower [of "[0..<n]" x] x by simp
  have S0: "0 \<le> S"
    unfolding S_def py_sum_def using t0 by (intro foldl_fl_nonneg) simp_all
  have S: "h ^ n * T - N * tiny \<le> S"
    using foldl_fl_lower [OF t0, of 0] by (simp add: S_def T_def py_sum_def u_def h_def N_def)
  have pw: "1 - \<tau> \<le> h ^ (n + 3)"
  proof -
    have "1 - of_nat (n + 3) * u \<le> (1 - u) ^ (n + 3)"
      using u by (intro power_1_minus_ge) simp_all
    moreover have "of_nat (n + 3) * u \<le> \<tau>"
      by (simp add: \<tau>_def u_def unit_roundoff_def)
    ultimately show ?thesis by (simp add: h_def)
  qed
  text \<open>the sum\<close>
  have "h ^ (n + 1) * X - 2 * N * tiny \<le> h ^ n * (h * X - N * tiny) - N * tiny"
  proof -
    have "h ^ n * (N * tiny) \<le> 1 * (N * tiny)"
      using hp(2) [of n] N u(4) by (intro mult_right_mono) simp_all
    then show ?thesis by (simp add: algebra_simps)
  qed
  also have "\<dots> \<le> h ^ n * T - N * tiny"
    using T hp(1) [of n] by (intro diff_right_mono mult_left_mono) simp_all
  also have "\<dots> \<le> S" by (rule S)
  finally have S': "h ^ (n + 1) * X - 2 * N * tiny \<le> S" .
  text \<open>the mean\<close>
  have m0: "h ^ (n + 1) * M - 2 * tiny \<le> S / N"
  proof -
    have "h ^ (n + 1) * M - 2 * tiny = (h ^ (n + 1) * X - 2 * N * tiny) / N"
      using N by (simp add: XM diff_divide_distrib)
    also have "\<dots> \<le> S / N"
      using S' N by (intro divide_right_mono) simp_all
    finally show ?thesis .
  qed
  have m00: "0 \<le> S / N" using S0 N by simp
  have "(h * h ^ (n + 1)) * M - 3 * tiny \<le> h * (h ^ (n + 1) * M - 2 * tiny) - tiny"
  proof -
    have "h * (2 * tiny) \<le> 1 * (2 * tiny)"
      using h u(4) by (intro mult_right_mono) simp_all
    then show ?thesis by (simp add: algebra_simps)
  qed
  also have "\<dots> \<le> h * (S / N) - tiny"
    using m0 h(1) by (intro diff_right_mono mult_left_mono) simp_all
  also have "\<dots> \<le> m'"
    unfolding m'_def h_def u_def using m00 by (rule fl_lower)
  finally have m'b: "(h * h ^ (n + 1)) * M - 3 * tiny \<le> m'" .
  have m'0: "0 \<le> m'" unfolding m'_def using m00 by (rule fl_nonneg)
  text \<open>the rounding to three decimals\<close>
  have q1: "m' - 1 / 2000 \<le> q1" "0 \<le> q1"
  proof -
    have "\<bar>of_int (round_half_even (m' * 1000)) - m' * 1000\<bar> \<le> 1 / 2"
      by (rule round_half_even_error)
    then have "m' * 1000 - 1 / 2 \<le> of_int (round_half_even (m' * 1000))"
      by linarith
    then show "m' - 1 / 2000 \<le> q1"
      by (simp add: q1_def field_simps)
    have "0 \<le> round_half_even (m' * 1000)"
      using m'0 by (intro round_half_even_nonneg) simp
    then show "0 \<le> q1" by (simp add: q1_def)
  qed
  have r: "r = fl q1"
    by (simp add: r_def py_round_def q1_def m'_def S_def N_def)
  have "(h * (h * h ^ (n + 1))) * M - 4 * tiny - 1 / 2000
      \<le> h * (((h * h ^ (n + 1)) * M - 3 * tiny) - 1 / 2000) - tiny"
  proof -
    have "h * (3 * tiny) \<le> 1 * (3 * tiny)"
      using h u(4) by (intro mult_right_mono) simp_all
    moreover have "h * (1 / 2000) \<le> 1 * (1 / 2000)"
      using h by (intro mult_right_mono) simp_all
    ultimately show ?thesis by (simp add: algebra_simps)
  qed
  also have "\<dots> \<le> h * q1 - tiny"
    using q1(1) m'b h(1) by (intro diff_right_mono mult_left_mono) simp_all
  also have "\<dots> \<le> r"
    unfolding r h_def u_def using q1(2) by (rule fl_lower)
  finally have rb: "(h * (h * h ^ (n + 1))) * M - 4 * tiny - 1 / 2000 \<le> r" .
  have h3: "h * (h * h ^ (n + 1)) = h ^ (n + 3)"
  proof -
    have "n + 3 = Suc (Suc (n + 1))" by simp
    then show ?thesis by (simp only: power_Suc)
  qed
  have "M - 1 / 2000 - (M + 1) * \<tau> \<le> (1 - \<tau>) * M - 4 * tiny - 1 / 2000"
  proof -
    have "4 * tiny \<le> u" using u by simp
    also have "u \<le> \<tau>"
    proof -
      have "(1 :: rat) \<le> of_nat (n + 3)" by simp
      then show ?thesis by (simp add: \<tau>_def u_def unit_roundoff_def field_simps)
    qed
    finally show ?thesis by (simp add: algebra_simps)
  qed
  also have "\<dots> \<le> h ^ (n + 3) * M - 4 * tiny - 1 / 2000"
    using pw M(2) by (intro diff_right_mono mult_right_mono) simp_all
  also have "\<dots> \<le> r"
    using rb by (simp only: h3)
  finally show ?thesis
    by (simp only: \<tau>_def)
qed

lemma recall_term_ok:
  assumes "i < length ann" "length nn_gt = length ann" "k \<noteq> 0"
  shows "recall_term nn_gt ann k i
    = Inr (fl (of_nat (card (set (ann ! i) \<inter> set (nn_gt ! i))) / of_int k))"
  using assms by (simp add: recall_term_def getitem_def py_truediv_def)

lemma fl_length_nonzero:
  assumes "xs \<noteq> []" and "length xs \<le> 2 ^ 51"
  shows "fl (of_nat (length xs)) = of_nat (length xs)" and "fl (of_nat (length xs)) \<noteq> 0"
proof -
  have "length xs < 2 ^ 53"
    using assms(2) by (rule le_less_trans) simp
  then show "fl (of_nat (length xs)) = of_nat (length xs)"
    by (rule fl_of_nat)
  then show "fl (of_nat (length xs)) \<noteq> 0"
    using assms(1) by simp
qed

lemma compute_recall_at_k_terms:
  assumes "\<And>i. i < length ann \<Longrightarrow> recall_term nn_gt ann k i = Inr (t i)"
    and "ann \<noteq> []" and "length ann \<le> 2 ^ 51"
  shows "compute_recall_at_k nn_gt ann k
    = Inr (py_round (fl (py_sum (map t [0..<length ann]) / of_nat (length ann))) 3)"
proof -
  have "comprehension (recall_term nn_gt ann k) [0..<length ann] = Inr (map t [0..<length ann])"
    by (rule comprehension_all_Inr) (simp add: assms(1))
  then show ?thesis
    using fl_length_nonzero [OF assms(2,3)]
    by (simp add: compute_recall_at_k_def py_truediv_def)
qed

lemma compute_recall_at_k_value:
  assumes "length nn_gt = length ann" and "ann \<noteq> []" and "k \<noteq> 0" and "length ann \<le> 2 ^ 51"
  shows "compute_recall_at_k nn_gt ann k
    = Inr (py_round (fl (py_sum (map (\<lambda>i. fl (of_nat (card (set (ann ! i) \<inter> set (nn_gt ! i)))
              / of_int k)) [0..<length ann]) / of_nat (length ann))) 3)"
  using assms by (intro compute_recall_at_k_terms) (simp_all add: recall_term_ok)

lemma recall_at_k_spec_sum_list:
  "recall_at_k_spec nn_gt ann k
    = sum_list (map (\<lambda>i. of_nat (card (set (ann ! i) \<inter> set (nn_gt ! i))) / of_int k)
        [0..<length ann]) / of_nat (length ann)"
  by (simp add: recall_at_k_spec_def interv_sum_list_conv_sum_set_nat atLeast0LessThan)

lemma py_round_0: "py_round 0 n = 0"
  by (simp add: py_round_def round_half_even_def fl_0)

lemma py_round_1: "py_round 1 3 = 1"
  by (simp add: py_round_def round_half_even_def fl_1)

lemma compute_recall_at_k_exact:
  assumes "length nn_gt = length ann" and "ann \<noteq> []" and "0 < k" and "length ann \<le> 2 ^ 51"
    and "\<forall>i<length ann. ann ! i = nn_gt ! i \<and> distinct (ann ! i) \<and> int (length (ann ! i)) = k"
  shows "compute_recall_at_k nn_gt ann k = Inr 1"
proof -
  have tm: "recall_term nn_gt ann k i = Inr 1" if "i < length ann" for i
  proof -
    have "card (set (ann ! i) \<inter> set (nn_gt ! i)) = nat k"
      using assms(5) that by (auto simp: distinct_card)
    then have q: "(of_nat (card (set (ann ! i) \<inter> set (nn_gt ! i))) :: rat) / of_int k = 1"
      using assms(3) by simp
    have "recall_term nn_gt ann k i
        = Inr (fl (of_nat (card (set (ann ! i) \<inter> set (nn_gt ! i))) / of_int k))"
      using that assms(1,3) by (intro recall_term_ok) simp_all
    then show ?thesis
      by (simp only: q fl_1)
  qed
  have n: "length ann < 2 ^ 53"
    using assms(4) by (rule le_less_trans) simp
  have "py_sum (map (\<lambda>i. 1) [0..<length ann]) = of_nat (length ann)"
    using py_sum_ones [OF n] by (simp add: map_replicate_const)
  then show ?thesis
    using compute_recall_at_k_terms [of ann nn_gt k "\<lambda>i. 1", OF tm assms(2,4)] assms(2)
    by (simp add: fl_1 py_round_1)
qed

lemma compute_recall_at_k_disjoint:
  assumes "length nn_gt = length ann" and "ann \<noteq> []" and "0 < k" and "length ann \<le> 2 ^ 51"
    and "\<forall>i<length ann. set (ann ! i) \<inter> set (nn_gt ! i) = {}"
  shows "compute_recall_at_k nn_gt ann k = Inr 0"
proof -
  have tm: "recall_term nn_gt ann k i = Inr 0" if "i < length ann" for i
    using that assms(1,3,5) by (simp add: recall_term_ok fl_0)
  have "py_sum (map (\<lambda>i. 0) [0..<length ann]) = 0"
    using py_sum_zeros [of "length ann"] by (simp add: map_replicate_const)
  then show ?thesis
    using compute_recall_at_k_terms [of ann nn_gt k "\<lambda>i. 0", OF tm assms(2,4)]
    by (simp add: fl_0 py_round_0)
qed

lemma compute_recall_at_k_near_mean:
  assumes "length nn_gt = length ann" and "ann \<noteq> []" and "0 < k" and "length ann \<le> 2 ^ 51"
  shows "\<exists>r q. compute_recall_at_k nn_gt ann k = Inr r \<and> r = fl (of_int q / 1000)
    \<and> \<bar>r - recall_at_k_spec nn_gt ann k\<bar>
        \<le> 1 / 2000 + (recall_at_k_spec nn_gt ann k + 1) * (of_nat (length ann + 3) / 2 ^ 52)"
proof -
  define x :: "nat \<Rightarrow> rat"
    where "x = (\<lambda>i. of_nat (card (set (ann ! i) \<inter> set (nn_gt ! i))) / of_int k)"
  define n where "n = length ann"
  define m where "m = fl (py_sum (map (\<lambda>i. fl (x i)) [0..<n]) / of_nat n)"
  define r where "r = py_round m 3"
  have x: "\<And>i. i < n \<Longrightarrow> 0 \<le> x i" using assms(3) by (simp add: x_def)
  have n: "0 < n" "n + 3 \<le> 2 ^ 52" using assms(2,4) by (simp_all add: n_def)
  have run: "compute_recall_at_k nn_gt ann k = Inr r"
    using compute_recall_at_k_value [OF assms(1,2) _ assms(4), of k] assms(3)
    by (simp add: r_def m_def x_def n_def)
  have M: "recall_at_k_spec nn_gt ann k = sum_list (map x [0..<n]) / of_nat n"
    by (simp add: recall_at_k_spec_sum_list x_def n_def)
  have up: "r \<le> recall_at_k_spec nn_gt ann k + 1 / 2000
      + (recall_at_k_spec nn_gt ann k + 1) * (of_nat (n + 3) / 2 ^ 52)"
    unfolding M r_def m_def by (rule rounded_mean_upper [OF x n])
  have low: "recall_at_k_spec nn_gt ann k - 1 / 2000
      - (recall_at_k_spec nn_gt ann k + 1) * (of_nat (n + 3) / 2 ^ 52) \<le> r"
    unfolding M r_def m_def by (rule rounded_mean_lower [OF x n])
  have "r = fl (of_int (round_half_even (m * 10 ^ 3)) / 1000)"
    by (simp add: r_def py_round_def)
  moreover have "\<bar>r - recall_at_k_spec nn_gt ann k\<bar>
      \<le> 1 / 2000 + (recall_at_k_spec nn_gt ann k + 1) * (of_nat (n + 3) / 2 ^ 52)"
    using up low by linarith
  ultimately show ?thesis
    using run unfolding n_def by blast
qed

lemma compute_single_query:
  assumes "k \<noteq> 0" and "fl (of_nat (card (set a \<inter> set g)) / of_int k) = t" and "fl t = t"
    and "round_half_even (t * 1000) = q"
  shows "compute_recall_at_k [g] [a] k = Inr (fl (of_int q / 1000))"
proof -
  have "compute_recall_at_k [g] [a] k
      = Inr (py_round (fl (py_sum (map (\<lambda>i. fl (of_nat (card (set ([a] ! i) \<inter> set ([g] ! i)))
              / of_int k)) [0..<length [a]]) / of_nat (length [a]))) 3)"
    using assms(1) by (intro compute_recall_at_k_value) simp_all
  then show ?thesis
    using assms(2,3,4) by (simp add: py_sum_def py_round_def)
qed

text \<open>
  Claim C3, as the code has it. For a non-empty batch of at most \<open>2\<^sup>5\<^sup>1\<close> queries, a
  ground truth with as many rows and \<open>k > 0\<close>, \<^verbatim>\<open>compute_recall_at_k\<close> returns a value:
  the double nearest to a number with three decimal places, and it differs from the mean
  over the queries of \<open>|set(ann[i]) \<inter> set(nn_gt[i])| / k\<close> by at most \<open>0.0005\<close> and a
  floating-point error of at most \<open>(mean + 1) * (n + 3) / 2\<^sup>5\<^sup>2\<close> for \<open>n\<close> queries. It returns 1
  when every approximate row equals its ground-truth row and holds \<open>k\<close> distinct
  indices, and 0 when every pair of rows is disjoint; the two examples of the spec give
  0 and 1.
\<close>

theorem compute_recall_at_k_mean:
  assumes "length nn_gt = length ann" and "ann \<noteq> []" and "0 < k" and "length ann \<le> 2 ^ 51"
  shows "(\<exists>r q. compute_recall_at_k nn_gt ann k = Inr r \<and> r = fl (of_int q / 1000)
        \<and> \<bar>r - recall_at_k_spec nn_gt ann k\<bar>
            \<le> 1 / 2000 + (recall_at_k_spec nn_gt ann k + 1) * (of_nat (length ann + 3) / 2 ^ 52))
    \<and> ((\<forall>i<length ann. ann ! i = nn_gt ! i \<and> distinct (ann ! i) \<and> int (length (ann ! i)) = k)
          \<longrightarrow> compute_recall_at_k nn_gt ann k = Inr 1)
    \<and> ((\<forall>i<length ann. set (ann ! i) \<inter> set (nn_gt ! i) = {})
          \<longrightarrow> compute_recall_at_k nn_gt ann k = Inr 0)
    \<and> compute_recall_at_k [[0, 1, 2 :: int]] [[3, 4, 5]] 3 = Inr 0
    \<and> compute_recall_at_k [[0, 1, 2 :: int]] [[0, 1, 2]] 3 = Inr 1"
proof -
  have e1: "compute_recall_at_k [[0, 1, 2 :: int]] [[3, 4, 5]] 3 = Inr 0"
    by (rule compute_recall_at_k_disjoint) simp_all
  have e2: "compute_recall_at_k [[0, 1, 2 :: int]] [[0, 1, 2]] 3 = Inr 1"
    by (rule compute_recall_at_k_exact) simp_all
  show ?thesis
    using compute_recall_at_k_near_mean [OF assms] compute_recall_at_k_exact [OF assms]
      compute_recall_at_k_disjoint [OF assms] e1 e2
    by blast
qed

text \<open>
  The theorem at three concrete batches: two queries with a mean of \<open>5/6\<close>, a batch of
  exact answers, and a batch of disjoint answers.
\<close>

theorem compute_recall_at_k_mean_witness:
  "(\<exists>r q. compute_recall_at_k [[0, 1, 2], [4, 5, 6 :: int]] [[0, 1, 2], [4, 5, 7]] 3 = Inr r
       \<and> r = fl (of_int q / 1000)
       \<and> \<bar>r - recall_at_k_spec [[0, 1, 2], [4, 5, 6 :: int]] [[0, 1, 2], [4, 5, 7]] 3\<bar>
           \<le> 1 / 2000 + (recall_at_k_spec [[0, 1, 2], [4, 5, 6 :: int]] [[0, 1, 2], [4, 5, 7]] 3 + 1)
                 * (of_nat (length [[0, 1, 2], [4, 5, 7 :: int]] + 3) / 2 ^ 52))
   \<and> compute_recall_at_k [[0, 1], [4, 5 :: int]] [[0, 1], [4, 5]] 2 = Inr 1
   \<and> compute_recall_at_k [[2, 3], [6, 7 :: int]] [[0, 1], [4, 5]] 2 = Inr 0"
proof -
  have a: "\<exists>r q. compute_recall_at_k [[0, 1, 2], [4, 5, 6 :: int]] [[0, 1, 2], [4, 5, 7]] 3 = Inr r
       \<and> r = fl (of_int q / 1000)
       \<and> \<bar>r - recall_at_k_spec [[0, 1, 2], [4, 5, 6 :: int]] [[0, 1, 2], [4, 5, 7]] 3\<bar>
           \<le> 1 / 2000 + (recall_at_k_spec [[0, 1, 2], [4, 5, 6 :: int]] [[0, 1, 2], [4, 5, 7]] 3 + 1)
                 * (of_nat (length [[0, 1, 2], [4, 5, 7 :: int]] + 3) / 2 ^ 52)"
  proof -
    have "length [[0, 1, 2], [4, 5, 6 :: int]] = length [[0, 1, 2], [4, 5, 7 :: int]]"
      and "[[0, 1, 2], [4, 5, 7 :: int]] \<noteq> []" and "(0 :: int) < 3"
      and "length [[0, 1, 2], [4, 5, 7 :: int]] \<le> 2 ^ 51"
      by simp_all
    from compute_recall_at_k_mean [OF this] show ?thesis
      by blast
  qed
  have hb: "\<forall>i<length [[0, 1], [4, 5 :: int]].
      [[0, 1], [4, 5 :: int]] ! i = [[0, 1], [4, 5]] ! i \<and> distinct ([[0, 1], [4, 5 :: int]] ! i)
      \<and> int (length ([[0, 1], [4, 5 :: int]] ! i)) = 2"
    by (simp add: less_Suc_eq)
  have b: "compute_recall_at_k [[0, 1], [4, 5 :: int]] [[0, 1], [4, 5]] 2 = Inr 1"
  proof -
    have "length [[0, 1], [4, 5 :: int]] = length [[0, 1], [4, 5 :: int]]"
      and "[[0, 1], [4, 5 :: int]] \<noteq> []" and "(0 :: int) < 2"
      and "length [[0, 1], [4, 5 :: int]] \<le> 2 ^ 51"
      by simp_all
    from compute_recall_at_k_mean [OF this] hb show ?thesis
      by blast
  qed
  have hc: "\<forall>i<length [[0, 1], [4, 5 :: int]].
      set ([[0, 1], [4, 5 :: int]] ! i) \<inter> set ([[2, 3], [6, 7]] ! i) = {}"
    by (simp add: less_Suc_eq)
  have c: "compute_recall_at_k [[2, 3], [6, 7 :: int]] [[0, 1], [4, 5]] 2 = Inr 0"
  proof -
    have "length [[2, 3], [6, 7 :: int]] = length [[0, 1], [4, 5 :: int]]"
      and "[[0, 1], [4, 5 :: int]] \<noteq> []" and "(0 :: int) < 2"
      and "length [[0, 1], [4, 5 :: int]] \<le> 2 ^ 51"
      by simp_all
    from compute_recall_at_k_mean [OF this] hc show ?thesis
      by blast
  qed
  show ?thesis using a b c by blast
qed

text \<open>
  Claim C3 as written fails at the empty batch, where the call raises; at equal rows of
  length \<open>k = 3\<close> that repeat an index, which give the double \<open>0.667\<close> and not 1; and at
  means that lie halfway between two three-decimal numbers: for the mean \<open>3/80 = 0.0375\<close>
  the code returns \<open>0.037\<close>, below the mean, where rounding the mean gives \<open>0.038\<close>, and for
  the mean \<open>1/80 = 0.0125\<close> it returns \<open>0.013\<close>, above the mean, where rounding the mean to
  the even neighbour gives \<open>0.012\<close>.
\<close>

theorem compute_recall_at_k_mean_counterexample:
  "compute_recall_at_k [] ([] :: int list list) 3 = Inl ZeroDivisionError
   \<and> compute_recall_at_k [[0, 0, 1 :: int]] [[0, 0, 1]] 3 = Inr (fl (667 / 1000))
   \<and> fl (667 / 1000) < 1
   \<and> compute_recall_at_k [[0, 1, 2 :: int]] [[0, 1, 2]] 80 = Inr (fl (37 / 1000))
   \<and> recall_at_k_spec [[0, 1, 2 :: int]] [[0, 1, 2]] 80 = 3 / 80
   \<and> round_half_even (3 / 80 * 1000) = 38
   \<and> fl (37 / 1000) < 3 / 80
   \<and> compute_recall_at_k [[0 :: int]] [[0]] 80 = Inr (fl (13 / 1000))
   \<and> recall_at_k_spec [[0 :: int]] [[0]] 80 = 1 / 80
   \<and> round_half_even (1 / 80 * 1000) = 12
   \<and> 1 / 80 < fl (13 / 1000)"
proof -
  have a: "compute_recall_at_k [] ([] :: int list list) 3 = Inl ZeroDivisionError"
    by (rule compute_recall_at_k_empty)
  have b: "compute_recall_at_k [[0, 0, 1 :: int]] [[0, 0, 1]] 3 = Inr (fl (of_int 667 / 1000))"
    by (rule compute_single_query [where t = "6004799503160661 / 9007199254740992"])
      (simp_all add: fl_2_3 fl_2_3_again round_half_even_eqI)
  have c: "compute_recall_at_k [[0, 1, 2 :: int]] [[0, 1, 2]] 80 = Inr (fl (of_int 37 / 1000))"
    by (rule compute_single_query [where t = "5404319552844595 / 144115188075855872"])
      (simp_all add: fl_3_80 fl_3_80_again round_half_even_eqI)
  have d: "compute_recall_at_k [[0 :: int]] [[0]] 80 = Inr (fl (of_int 13 / 1000))"
    by (rule compute_single_query [where t = "3602879701896397 / 288230376151711744"])
      (simp_all add: fl_1_80 fl_1_80_again round_half_even_eqI)
  have m1: "recall_at_k_spec [[0, 1, 2 :: int]] [[0, 1, 2]] 80 = 3 / 80"
    by (simp add: recall_at_k_spec_sum_list)
  have m2: "recall_at_k_spec [[0 :: int]] [[0]] 80 = 1 / 80"
    by (simp add: recall_at_k_spec_sum_list)
  have r1: "round_half_even (3 / 80 * 1000) = 38" and r2: "round_half_even (1 / 80 * 1000) = 12"
    by code_simp+
  have v1: "fl (667 / 1000) < 1" and v2: "fl (37 / 1000) < 3 / 80" and v3: "1 / 80 < fl (13 / 1000)"
    by (simp_all add: fl_667 fl_37 fl_13)
  show ?thesis
    using a b c d m1 m2 r1 r2 v1 v2 v3 by simp
qed

text \<open>
  Claim C10, as the code has it. An empty approximate batch raises
  \<^verbatim>\<open>ZeroDivisionError\<close> for every ground truth and every \<open>k\<close>; so does \<open>k = 0\<close> with a
  non-empty batch, provided the ground truth has a first row.
\<close>

theorem compute_recall_at_k_division_by_zero:
  "compute_recall_at_k nn_gt [] k = Inl ZeroDivisionError
   \<and> (ann \<noteq> [] \<and> nn_gt \<noteq> [] \<longrightarrow> compute_recall_at_k nn_gt ann 0 = Inl ZeroDivisionError)"
  by (simp add: compute_recall_at_k_empty compute_recall_at_k_zero_k)

text \<open>
  The theorem at an empty batch with \<open>k = 5\<close> and at a one-row batch with \<open>k = 0\<close>.
\<close>

theorem compute_recall_at_k_division_by_zero_witness:
  "compute_recall_at_k [[7 :: int]] [] 5 = Inl ZeroDivisionError
   \<and> compute_recall_at_k [[2]] [[1 :: int]] 0 = Inl ZeroDivisionError"
  using compute_recall_at_k_division_by_zero [of "[[7 :: int]]" 5 "[[1]]"]
    compute_recall_at_k_division_by_zero [of "[[2 :: int]]" 0 "[[1]]"]
  by simp

text \<open>
  Claim C10 as written fails for \<open>k = 0\<close> and a non-empty batch when the ground truth is
  empty: \<^verbatim>\<open>nn_gt[0]\<close> raises \<^verbatim>\<open>IndexError\<close> before anything is divided.
\<close>

theorem compute_recall_at_k_zero_k_counterexample:
  "compute_recall_at_k [] [[1 :: int]] 0 = Inl IndexError"
  by code_simp

section \<open>Properties of the embedder\<close>

lemma slice_to_minus_one: "slice_to xs (- 1) = butlast xs"
  by (simp add: slice_to_def butlast_conv_take nat_diff_distrib')

text \<open>
  Claim C1 at the code. With \<^verbatim>\<open>rec_num=-1\<close>, as \<^verbatim>\<open>main\<close> calls it, the slice
  \<^verbatim>\<open>[:-1]\<close> drops the last row before the model sees it: for a model that embeds row by
  row, a dataset of \<open>N\<close> rows gives the vectors of the first \<open>N - 1\<close> rows, in order.
  Three chunk rows give two vectors.
\<close>

theorem embedd_dataset_drops_last_row:
  "embedd_dataset dataset (map enc) text_field (- 1) = map enc (butlast (map text_field dataset))
   \<and> length (embedd_dataset dataset (map enc) text_field (- 1)) = length dataset - 1
   \<and> embedd_dataset
        [\<lparr>str_idx = 1 :: int, chunk_id = 0, chunk = ''a''\<rparr>,
         \<lparr>str_idx = 1, chunk_id = 1, chunk = ''b''\<rparr>,
         \<lparr>str_idx = 2, chunk_id = 0, chunk = ''c''\<rparr>] (map enc) chunk (- 1)
       = [enc ''a'', enc ''b'']"
  by (simp add: embedd_dataset_def slice_to_minus_one)

text \<open>
  What \<^verbatim>\<open>main\<close> persists: when every step succeeds, \<^verbatim>\<open>data/embeddings.pkl\<close> holds the
  embeddings of all chunks but the last.
\<close>

lemma main_persists_all_but_last:
  assumes "lib_read_book_csv lib w ''data/book_df.csv'' = Inr book_df"
    and "lib_read_passages_csv lib w ''data/passages_df.csv'' = Inr passages_df"
    and "create_book_chunks (lib_split_text lib) (lib_to_csv lib) book_df 1000 (3 / 10) w
           = Inr (Some chunks_df, w1)"
    and "main lib w = Inr w2"
  shows "file_data w2 ''data/embeddings.pkl''
           = Some (lib_pickle_dumps lib (lib_encode lib (butlast (map chunk chunks_df))))"
proof -
  let ?embeddings = "lib_encode lib (butlast (map chunk chunks_df))"
  have e: "embedd_dataset chunks_df (lib_encode lib) chunk (- 1) = ?embeddings"
    by (simp add: embedd_dataset_def slice_to_minus_one)
  show ?thesis
  proof (cases "may_write w1 ''data/embeddings.pkl''")
    case False
    with assms e show ?thesis
      by (simp add: main_def load_df_def save_embeddings_def write_file_def)
  next
    case True
    show ?thesis
    proof (cases "build_faiss_flatl2_index (lib_IndexFlatL2 lib) (lib_index_add lib) ?embeddings
        (lib_shape lib ?embeddings)")
      case (Inl err)
      with assms e True show ?thesis
        by (simp add: main_def load_df_def save_embeddings_def write_file_def)
    next
      case (Inr ix)
      with assms e True show ?thesis
        by (auto simp: main_def load_df_def save_embeddings_def write_file_def)
    qed
  qed
qed

section \<open>Properties of the retriever\<close>








text \<open>
  The same call, evaluated: the chunks at positions 2 and 0 with their distances.
\<close>

lemma retrieve_top_passages_example:
  "retrieve_top_passages ''q'' (\<lambda>qs. qs) (\<lambda>vs n. ([[1 / 10, 1 / 2 :: rat]], [[2, - 3]]))
       [''zero'', ''one'', ''two''] 5 = Inr [(''two'', 1 / 10), (''zero'', 1 / 2)]"
  by (simp add: retrieve_top_passages_def getitem_def passage_def py_index_def)

text \<open>
  Claim C9. \<^verbatim>\<open>retrieve\<close> runs no search and stores no result, whatever the model, the
  index and the chunks: its list of queries is empty, so the loop body never runs, the
  dictionary stays empty and the function returns \<^verbatim>\<open>None\<close>.
\<close>

theorem retrieve_runs_no_search:
  "retrieve_state model index chunks = Inr (Map.empty, [])
   \<and> retrieve model index chunks = Inr ()"
  by (simp add: retrieve_def retrieve_state_def)

section \<open>Properties of the chunker\<close>


















lemma create_splits_files:
  assumes "create_splits sp texts sz ov w = Inr (cs, w1)"
  shows "may_write w1 = may_write w \<and> may_read w1 = may_read w \<and> file_data w1 = file_data w"
proof (cases "sp sz ov texts")
  case (Inl e)
  with assms show ?thesis by (simp add: create_splits_def)
next
  case (Inr r)
  with assms show ?thesis by (auto simp: create_splits_def print_def)
qed

lemma book_chunks_loop_files:
  assumes "book_chunks_loop sp rows sz ov acc w = Inr (chunks, w1)"
  shows "may_write w1 = may_write w \<and> may_read w1 = may_read w \<and> file_data w1 = file_data w"
  using assms
proof (induction rows arbitrary: acc w)
  case Nil
  then show ?case by simp
next
  case (Cons row rows)
  show ?case
  proof (cases "create_splits sp (processed_content row) sz ov w")
    case (Inl e)
    with Cons.prems show ?thesis by simp
  next
    case (Inr r)
    obtain cs w2 where r: "r = (cs, w2)" by (cases r)
    from Cons.prems Inr r
    have "book_chunks_loop sp rows sz ov (acc @ labelled (str_idx row) cs) w2 = Inr (chunks, w1)"
      by simp
    from Cons.IH [OF this] create_splits_files [OF Inr [unfolded r]] show ?thesis
      by simp
  qed
qed






text \<open>
  Claim C2 at the code. When \<^verbatim>\<open>data/chunks.csv\<close> cannot be written, the failure is
  caught and the message is printed, but \<^verbatim>\<open>create_book_chunks\<close> returns \<^verbatim>\<open>None\<close>: the
  chunks computed by the loop do not reach the caller.
\<close>

theorem create_book_chunks_write_fails:
  assumes "book_chunks_loop sp book_df sz ov [] w = Inr (chunks, w1)"
    and "\<not> may_write w ''data/chunks.csv''"
  shows "create_book_chunks sp csv book_df sz ov w = Inr (None, print Csv_not_created w1)"
proof -
  have "may_write w1 = may_write w"
    using book_chunks_loop_files [OF assms(1)] by simp
  with assms(2) have "write_file w1 ''data/chunks.csv'' (csv (from_records chunks)) = Inl OSError"
    by (simp add: write_file_def)
  with assms(1) show ?thesis
    by (simp add: create_book_chunks_def)
qed

text \<open>
  The loop on one short chapter in a world where nothing can be written.
\<close>

lemma read_only_loop:
  "book_chunks_loop one_chunk [\<lparr>str_idx = 1 :: int, processed_content = ''abc''\<rparr>] 1000 (3 / 10) []
     read_only_world
   = Inr ([(1, 0, ''abc'')], read_only_world\<lparr>stdout := [Created 1 3]\<rparr>)"
  by (simp add: create_splits_def one_chunk_def labelled_def print_def read_only_world_def)

text \<open>
  The theorem at that run: one chunk is computed, the message is printed, the value is \<^verbatim>\<open>None\<close>.
\<close>

theorem create_book_chunks_write_fails_witness:
  "\<not> may_write read_only_world ''data/chunks.csv''
   \<and> create_book_chunks one_chunk (\<lambda>df. [])
        [\<lparr>str_idx = 1 :: int, processed_content = ''abc''\<rparr>] 1000 (3 / 10) read_only_world
     = Inr (None, read_only_world\<lparr>stdout := [Created 1 3, Csv_not_created]\<rparr>)"
proof -
  have n: "\<not> may_write read_only_world ''data/chunks.csv''"
    by (simp add: read_only_world_def)
  from create_book_chunks_write_fails [OF read_only_loop n, of "\<lambda>df. []"] n show ?thesis
    by (simp add: print_def read_only_world_def)
qed

text \<open>
  \<^verbatim>\<open>main\<close> hands that \<^verbatim>\<open>None\<close> to \<^verbatim>\<open>embedd_dataset\<close>, which subscripts it: the
  pipeline stops with \<^verbatim>\<open>TypeError\<close>.
\<close>

lemma main_stops_after_failed_csv_write:
  assumes "lib_read_book_csv lib w ''data/book_df.csv'' = Inr book_df"
    and "lib_read_passages_csv lib w ''data/passages_df.csv'' = Inr passages_df"
    and "book_chunks_loop (lib_split_text lib) book_df 1000 (3 / 10) [] w = Inr (chunks, w1)"
    and "\<not> may_write w ''data/chunks.csv''"
  shows "main lib w = Inl TypeError"
proof -
  have "may_write w1 = may_write w"
    using book_chunks_loop_files [OF assms(3)] by simp
  with assms(4) have "write_file w1 ''data/chunks.csv''
      (lib_to_csv lib (from_records chunks)) = Inl OSError"
    by (simp add: write_file_def)
  with assms(3) have "create_book_chunks (lib_split_text lib) (lib_to_csv lib) book_df 1000 (3 / 10) w
      = Inr (None, print Csv_not_created w1)"
    by (simp add: create_book_chunks_def)
  with assms(1,2) show ?thesis
    by (simp add: main_def load_df_def)
qed

section \<open>Properties of persistence\<close>

text \<open>
  Claim C5. For a path that can be written and read, and a matrix that the pickle
  library reads back from its own bytes, \<^verbatim>\<open>save_embeddings\<close> succeeds and
  \<^verbatim>\<open>load_embeddings\<close> on the same path then returns the matrix.
\<close>

theorem save_load_round_trip:
  assumes "pickle_loads (pickle_dumps embeddings) = Some embeddings"
    and "may_write w file_path" and "may_read w file_path"
  shows "\<exists>w'. save_embeddings pickle_dumps embeddings file_path w = Inr w'
           \<and> load_embeddings pickle_loads file_path w' = Inr embeddings"
  using assms by (simp add: save_embeddings_def load_embeddings_def write_file_def read_file_def)

text \<open>
  The theorem for a matrix of three numbers, one byte each, in a world with no files.
\<close>

theorem save_load_round_trip_witness:
  "\<exists>w'. save_embeddings (map char_of) [1, 2, 3 :: nat] ''data/embeddings.pkl''
            \<lparr>file_data = Map.empty, may_write = (\<lambda>p. True), may_read = (\<lambda>p. True), stdout = []\<rparr>
          = Inr w'
        \<and> load_embeddings (\<lambda>bytes. Some (map of_char bytes)) ''data/embeddings.pkl'' w'
          = Inr [1, 2, 3 :: nat]"
  using save_load_round_trip [of "\<lambda>bytes. Some (map of_char bytes)" "map char_of" "[1, 2, 3 :: nat]"
      "\<lparr>file_data = Map.empty, may_write = (\<lambda>p. True), may_read = (\<lambda>p. True), stdout = []\<rparr>"
      "''data/embeddings.pkl''"]
  by simp



end
